theory Spec2Isabelle
  imports Complex_Main
begin

section \<open>Data model\<close>

text \<open>
  The climb detector works on JavaScript numbers. They are modelled as \<^typ>\<open>real\<close>:
  every comparison and every branch of the source is kept, rounding of the
  floating-point operations is not. All divisions of the source have a divisor that the
  surrounding guard makes positive (or the constant 7), so no division by zero is hidden.
  Where a property turns on the rounding (whether a computed gradient exceeds the
  threshold), the section on rounded arithmetic below repeats the definitions with the
  rounding of every operation as a parameter, and the property is proved there.
\<close>

text \<open>One sample of the track: \<^verbatim>\<open>{ distance: number; elevation: number }\<close>.\<close>

record ElevationPoint =
  distance :: real
  elevation :: real

text \<open>\<^verbatim>\<open>"HC" | "1" | "2" | "3" | "4" | null\<close>: the five strings are the constructors,
  \<^verbatim>\<open>null\<close> is \<^const>\<open>None\<close>.\<close>

datatype category = HC | Cat1 | Cat2 | Cat3 | Cat4

text \<open>The label word chosen by \<^verbatim>\<open>generateClimbName\<close>. The display name is the template
  literal \<^verbatim>\<open>`${nameType} ${elevationSuffix}m`\<close>; it is kept as the pair of its two
  variable parts, the word and the rounded number.\<close>

datatype nameType = Col | Cote | Mont | Montee

text \<open>The interface \<^verbatim>\<open>ClimbSegment\<close>. Its field \<^verbatim>\<open>length\<close> is \<open>length_km\<close> here, the
  name \<open>length\<close> being the one of lists.\<close>

record ClimbSegment =
  startDistance :: real
  endDistance :: real
  startElevation :: real
  endElevation :: real
  length_km :: real
  elevationGain :: real
  averageGradient :: real
  score :: real
  category :: "category option"
  peakDistance :: real
  peakElevation :: real
  name :: "nameType \<times> int"

section \<open>The smoother\<close>

definition windowSize :: nat where
  "windowSize = 3"

text \<open>The inner loop of the smoother: \<^verbatim>\<open>for (j = i - windowSize; j <= i + windowSize; j++)
  sum += points[j].elevation\<close>, starting from \<^verbatim>\<open>sum = 0\<close>.\<close>

definition windowSum :: "ElevationPoint list \<Rightarrow> nat \<Rightarrow> real" where
  "windowSum points i =
     foldl (\<lambda>sum j. sum + elevation (points ! j)) 0 [i - windowSize ..< i + windowSize + 1]"

text \<open>The body of the outer loop: \<^verbatim>\<open>smoothed[i] = { ...points[i], elevation: sum / 7 }\<close>.\<close>

definition smoothAt :: "ElevationPoint list \<Rightarrow> ElevationPoint list \<Rightarrow> nat \<Rightarrow> ElevationPoint list" where
  "smoothAt points smoothed i =
     smoothed[i := (points ! i)\<lparr>elevation := windowSum points i / real (windowSize * 2 + 1)\<rparr>]"

definition smoothElevationForClimbDetection :: "ElevationPoint list \<Rightarrow> ElevationPoint list" where
  "smoothElevationForClimbDetection points =
     (if length points < 5 then points
      else foldl (smoothAt points) points [windowSize ..< length points - windowSize])"

section \<open>Scoring and naming\<close>

definition categorizeClimb :: "real \<Rightarrow> category option" where
  "categorizeClimb sc =
     (if sc \<ge> 600 then Some HC
      else if sc \<ge> 300 then Some Cat1
      else if sc \<ge> 150 then Some Cat2
      else if sc \<ge> 75 then Some Cat3
      else if sc > 0 then Some Cat4
      else None)"

text \<open>\<^verbatim>\<open>Math.round\<close> rounds to the nearest integer, halves upwards, which is
  \<^const>\<open>round\<close>.\<close>

definition generateClimbName :: "real \<Rightarrow> real \<Rightarrow> real \<Rightarrow> nameType \<times> int" where
  "generateClimbName elev len gradient =
     (let nameType =
        (if elev > 1500 then Col
         else if elev > 1000 then Mont
         else if gradient > 10 then Montee
         else if len > 10 then Col
         else Cote);
          elevationSuffix = round (elev / 100) * 100
      in (nameType, elevationSuffix))"

section \<open>The merger\<close>

definition minDistanceBetweenClimbs :: real where
  "minDistanceBetweenClimbs = 2"

text \<open>One iteration of the loop of \<^verbatim>\<open>mergeNearbyClimbs\<close>: \<open>merged\<close> is the accumulator,
  \<open>currentClimb\<close> is \<^verbatim>\<open>climbs[i]\<close>. The flag \<^verbatim>\<open>shouldMerge\<close> is set exactly in the branch
  \<^verbatim>\<open>distanceBetween < minDistanceBetweenClimbs\<close>, where nothing is pushed.\<close>

definition mergeStep :: "ClimbSegment list \<Rightarrow> ClimbSegment \<Rightarrow> ClimbSegment list" where
  "mergeStep merged currentClimb =
     (if length merged > 0 then
        (let lastClimb = merged ! (length merged - 1);
             distanceBetween = startDistance currentClimb - endDistance lastClimb
         in if distanceBetween < minDistanceBetweenClimbs then
              (if score currentClimb > score lastClimb
               then merged[length merged - 1 := currentClimb]
               else merged)
            else merged @ [currentClimb])
      else merged @ [currentClimb])"

definition mergeNearbyClimbs :: "ClimbSegment list \<Rightarrow> ClimbSegment list" where
  "mergeNearbyClimbs climbs =
     (if length climbs \<le> 1 then climbs else foldl mergeStep [] climbs)"

section \<open>The segmenter\<close>

definition minClimbLength :: real where
  "minClimbLength = 0.5"

definition minElevationGain :: real where
  "minElevationGain = 30"

definition gradientThreshold :: real where
  "gradientThreshold = 3"

text \<open>The gradient of one pair of consecutive points, in percent; a pair whose distance
  delta is not positive has gradient 0.\<close>

definition pairGradient :: "ElevationPoint \<Rightarrow> ElevationPoint \<Rightarrow> real" where
  "pairGradient prevPoint point =
     (let elevationChange = elevation point - elevation prevPoint;
          dist = distance point - distance prevPoint
      in if dist > 0 then (elevationChange / (dist * 1000)) * 100 else 0)"

text \<open>The look-ahead for the peak: \<^verbatim>\<open>for (j = i; j < Math.min(i + 20, n); j++)\<close> with its
  \<^verbatim>\<open>break\<close>. The state is the pair \<open>(peakDistance, peakElevation)\<close>; \<open>hi\<close> is the loop
  bound.\<close>

function findPeak :: "ElevationPoint list \<Rightarrow> nat \<Rightarrow> nat \<Rightarrow> real \<times> real \<Rightarrow> real \<times> real" where
  "findPeak sp j hi (peakD, peakE) =
     (if j < hi then
        (if elevation (sp ! j) > peakE
         then findPeak sp (j + 1) hi (distance (sp ! j), elevation (sp ! j))
         else if elevation (sp ! j) < peakE - 10 then (peakD, peakE)
         else findPeak sp (j + 1) hi (peakD, peakE))
      else (peakD, peakE))"
  by pat_completeness auto
termination
  by (relation "measure (\<lambda>(sp, j, hi, p). hi - j)") auto

declare findPeak.simps [simp del]

text \<open>The mutable variables of the loop of \<^verbatim>\<open>detectClimbs\<close>.\<close>

record scanState =
  climbStart :: "real option"
  climbStartElevation :: "real option"
  currentElevation :: real
  isClimbing :: bool
  climbs :: "ClimbSegment list"

text \<open>The evaluation of a window that closes at index \<open>i\<close>: the list of climbs after the
  two gates and the push.\<close>

definition closeClimb :: "ElevationPoint list \<Rightarrow> nat \<Rightarrow> real \<Rightarrow> real \<Rightarrow> ClimbSegment list \<Rightarrow> ClimbSegment list" where
  "closeClimb sp i cStart cStartElevation cs =
     (let point = sp ! i;
          climbEnd = distance point;
          climbEndElevation = elevation point;
          climbLength = climbEnd - cStart;
          gain = climbEndElevation - cStartElevation
      in if climbLength \<ge> minClimbLength \<and> gain \<ge> minElevationGain then
           (let avgGradient = (gain / (climbLength * 1000)) * 100
            in if avgGradient \<ge> gradientThreshold then
                 (let (peakD, peakE) = findPeak sp i (min (i + 20) (length sp)) (climbEnd, climbEndElevation);
                      sc = climbLength * (avgGradient * avgGradient);
                      cat = categorizeClimb sc
                  in cs @ [\<lparr>startDistance = cStart, endDistance = climbEnd,
                             startElevation = cStartElevation, endElevation = climbEndElevation,
                             length_km = climbLength, elevationGain = gain,
                             averageGradient = avgGradient, score = sc, category = cat,
                             peakDistance = peakD, peakElevation = peakE,
                             name = generateClimbName peakE climbLength avgGradient\<rparr>])
               else cs)
         else cs)"

text \<open>One iteration of the main loop, for the index \<open>i\<close> with \<open>1 \<le> i < length sp\<close>.\<close>

definition scanStep :: "ElevationPoint list \<Rightarrow> scanState \<Rightarrow> nat \<Rightarrow> scanState" where
  "scanStep sp st i =
     (let point = sp ! i;
          prevPoint = sp ! (i - 1);
          gradient = pairGradient prevPoint point;
          st' =
            (if \<not> isClimbing st \<and> gradient > gradientThreshold then
               st\<lparr>climbStart := Some (distance prevPoint),
                  climbStartElevation := Some (elevation prevPoint),
                  isClimbing := True\<rparr>
             else if isClimbing st \<and> (gradient < gradientThreshold \<or> i = length sp - 1) then
               st\<lparr>climbs :=
                    (case (climbStart st, climbStartElevation st) of
                       (Some cStart, Some cStartElevation) \<Rightarrow>
                          closeClimb sp i cStart cStartElevation (climbs st)
                     | _ \<Rightarrow> climbs st),
                  isClimbing := False, climbStart := None, climbStartElevation := None\<rparr>
             else st)
      in st'\<lparr>currentElevation := elevation point\<rparr>)"

definition initState :: "ElevationPoint list \<Rightarrow> scanState" where
  "initState elevationPoints =
     \<lparr>climbStart = None, climbStartElevation = None,
      currentElevation = elevation (elevationPoints ! 0),
      isClimbing = False, climbs = []\<rparr>"

definition scanClimbs :: "ElevationPoint list \<Rightarrow> ElevationPoint list \<Rightarrow> scanState" where
  "scanClimbs elevationPoints sp =
     foldl (scanStep sp) (initState elevationPoints) [1 ..< length sp]"

definition detectClimbs :: "ElevationPoint list \<Rightarrow> ClimbSegment list" where
  "detectClimbs elevationPoints =
     (if length elevationPoints < 10 then []
      else mergeNearbyClimbs
             (climbs (scanClimbs elevationPoints (smoothElevationForClimbDetection elevationPoints))))"

section \<open>The merger as the specification words it\<close>

text \<open>The step of the specification: append when the accumulator is empty or the gap to the
  last kept segment is at least 2 km; otherwise replace the last kept segment when the
  candidate's score is strictly greater, else drop the candidate.\<close>

definition spec_mergeStep :: "ClimbSegment list \<Rightarrow> ClimbSegment \<Rightarrow> ClimbSegment list" where
  "spec_mergeStep kept candidate =
     (if kept = [] \<or> startDistance candidate - endDistance (last kept) \<ge> 2
      then kept @ [candidate]
      else if score candidate > score (last kept) then butlast kept @ [candidate]
      else kept)"

definition spec_merge :: "ClimbSegment list \<Rightarrow> ClimbSegment list" where
  "spec_merge candidates = foldl spec_mergeStep [] candidates"

section \<open>Auxiliary notions for the proofs\<close>

text \<open>The gap between a kept segment \<open>a\<close> and a later segment \<open>b\<close> is at least the minimum
  distance between climbs.\<close>

definition farApart :: "ClimbSegment \<Rightarrow> ClimbSegment \<Rightarrow> bool" where
  "farApart a b = (startDistance b - endDistance a \<ge> minDistanceBetweenClimbs)"

text \<open>The invariant of the merger on candidates sorted by start: consecutive kept segments
  are far apart, and the last kept segment starts no later than every candidate
  still to come.\<close>

definition mergeInv :: "ClimbSegment list \<Rightarrow> ClimbSegment list \<Rightarrow> bool" where
  "mergeInv acc cs \<longleftrightarrow>
     successively farApart acc \<and> sorted (map startDistance cs) \<and>
     (\<forall>a \<in> set (if acc = [] then [] else [last acc]). \<forall>c \<in> set cs. startDistance a \<le> startDistance c)"

text \<open>The state of the main loop before the iteration for index \<open>k\<close>.\<close>

definition scanUpTo :: "ElevationPoint list \<Rightarrow> ElevationPoint list \<Rightarrow> nat \<Rightarrow> scanState" where
  "scanUpTo elevationPoints sp k = foldl (scanStep sp) (initState elevationPoints) [1 ..< k]"

text \<open>What the segmenter records in a segment whose window closes at index \<open>i\<close>.\<close>

definition emittedAt :: "ElevationPoint list \<Rightarrow> nat \<Rightarrow> ClimbSegment \<Rightarrow> bool" where
  "emittedAt sp i seg \<longleftrightarrow>
     endDistance seg = distance (sp ! i) \<and> endElevation seg = elevation (sp ! i) \<and>
     length_km seg = endDistance seg - startDistance seg \<and>
     elevationGain seg = endElevation seg - startElevation seg \<and>
     averageGradient seg = (elevationGain seg / (length_km seg * 1000)) * 100 \<and>
     minClimbLength \<le> length_km seg \<and> minElevationGain \<le> elevationGain seg \<and>
     gradientThreshold \<le> averageGradient seg \<and>
     score seg = length_km seg * (averageGradient seg * averageGradient seg) \<and>
     category seg = categorizeClimb (score seg) \<and>
     (peakDistance seg, peakElevation seg) =
        findPeak sp i (min (i + 20) (length sp)) (endDistance seg, endElevation seg)"

text \<open>A segment whose window opened at the pair \<open>(s, s + 1)\<close> starts at sample \<open>s\<close>.\<close>

definition startsAt :: "ElevationPoint list \<Rightarrow> nat \<Rightarrow> ClimbSegment \<Rightarrow> bool" where
  "startsAt sp s seg \<longleftrightarrow>
     startDistance seg = distance (sp ! s) \<and> startElevation seg = elevation (sp ! s)"

text \<open>The invariant of the main loop: every segment pushed so far was emitted at an index
  below \<open>k\<close> for a window opened before, and an open window was opened at a sample below \<open>k\<close>.\<close>

definition scanInv :: "ElevationPoint list \<Rightarrow> nat \<Rightarrow> scanState \<Rightarrow> bool" where
  "scanInv sp k st \<longleftrightarrow>
     (\<forall>seg \<in> set (climbs st). \<exists>i s. s < i \<and> i < k \<and> emittedAt sp i seg \<and> startsAt sp s seg) \<and>
     (isClimbing st \<longrightarrow>
        (\<exists>s < k. climbStart st = Some (distance (sp ! s)) \<and>
                  climbStartElevation st = Some (elevation (sp ! s))))"

text \<open>The highest smoothed elevation among the samples \<open>i, \<dots>, k - 1\<close>.\<close>

definition runningMax :: "ElevationPoint list \<Rightarrow> nat \<Rightarrow> nat \<Rightarrow> real" where
  "runningMax sp i k = Max ((\<lambda>l. elevation (sp ! l)) ` {i ..< k})"

text \<open>The state \<open>p = (peakDistance, peakElevation)\<close> of the look-ahead that started at index
  \<open>i\<close>, once the samples \<open>i, \<dots>, k - 1\<close> have been scanned without a stop: the elevation is
  their maximum, the distance is that of the first sample that reaches it, and no scanned
  sample lay more than 10 m below the maximum reached with it.\<close>

definition peakState :: "ElevationPoint list \<Rightarrow> nat \<Rightarrow> nat \<Rightarrow> real \<times> real \<Rightarrow> bool" where
  "peakState sp i k p \<longleftrightarrow>
     i < k \<and> snd p = runningMax sp i k \<and>
     (\<exists>m. i \<le> m \<and> m < k \<and> fst p = distance (sp ! m) \<and> elevation (sp ! m) = snd p \<and>
          (\<forall>l. i \<le> l \<and> l < m \<longrightarrow> elevation (sp ! l) < snd p)) \<and>
     (\<forall>l. i \<le> l \<and> l < k \<longrightarrow> runningMax sp i (Suc l) - 10 \<le> elevation (sp ! l))"


section \<open>Example inputs\<close>

text \<open>A track with one sample every \<open>step\<close> kilometres and the given elevations.\<close>

definition samples :: "real \<Rightarrow> real list \<Rightarrow> ElevationPoint list" where
  "samples step es = map (\<lambda>(i, e). \<lparr>distance = real i * step, elevation = e\<rparr>) (enumerate 0 es)"

text \<open>Twenty samples, one per kilometre: two ramps of 10 percent, each 4 km long, with
  5 km of plateau between them.\<close>

definition exTrack :: "ElevationPoint list" where
  "exTrack = samples 1
     [0, 0, 0, 0, 100, 200, 300, 400, 400, 400, 400, 400, 400, 500, 600, 700, 800, 800, 800, 800]"

definition exClimb1 :: ClimbSegment where
  "exClimb1 =
     \<lparr>startDistance = 2, endDistance = 9, startElevation = 0, endElevation = 2700 / 7,
      length_km = 7, elevationGain = 2700 / 7, averageGradient = 270 / 49,
      score = 72900 / 343, category = Some Cat2, peakDistance = 17, peakElevation = 800,
      name = (Cote, 800)\<rparr>"

definition exClimb2 :: ClimbSegment where
  "exClimb2 =
     \<lparr>startDistance = 11, endDistance = 18, startElevation = 3100 / 7, endElevation = 800,
      length_km = 7, elevationGain = 2500 / 7, averageGradient = 250 / 49,
      score = 62500 / 343, category = Some Cat2, peakDistance = 18, peakElevation = 800,
      name = (Cote, 800)\<rparr>"

text \<open>Nine samples of a steep ramp: one sample short of the minimum.\<close>

definition exShort :: "ElevationPoint list" where
  "exShort = samples 1 [0, 100, 200, 300, 400, 500, 600, 700, 800]"

text \<open>A segment as the segmenter would build it from its two end points, the peak being the
  end.\<close>

definition climbOf :: "real \<Rightarrow> real \<Rightarrow> real \<Rightarrow> real \<Rightarrow> ClimbSegment" where
  "climbOf d0 e0 d1 e1 =
     (let len = d1 - d0; gain = e1 - e0; avg = (gain / (len * 1000)) * 100;
          sc = len * (avg * avg)
      in \<lparr>startDistance = d0, endDistance = d1, startElevation = e0, endElevation = e1,
          length_km = len, elevationGain = gain, averageGradient = avg, score = sc,
          category = categorizeClimb sc, peakDistance = d1, peakElevation = e1,
          name = generateClimbName e1 len avg\<rparr>)"

text \<open>Three candidates in scan order: the second starts 1.5 km after the first ends and
  scores less; the third is 3.5 km further on.\<close>

definition exCandidates :: "ClimbSegment list" where
  "exCandidates = [climbOf 0 0 5 400, climbOf (13/2) 300 (17/2) 500, climbOf 12 400 14 500]"



definition exEight :: "ElevationPoint list" where
  "exEight = samples 1 [0, 10, 20, 100, 40, 50, 60, 70]"

definition exFour :: "ElevationPoint list" where
  "exFour = samples 1 [0, 50, 10, 70]"

section \<open>The detector in rounded arithmetic\<close>

text \<open>
  The source computes in IEEE 754 doubles: each of \<^verbatim>\<open>+ - * /\<close> returns the exact result
  rounded to a double. In the definitions of this section the rounding is the parameter
  \<open>fl\<close>, applied to the result of every arithmetic operation of the source, in the order
  in which the source evaluates them. Literals, comparisons, \<^verbatim>\<open>Math.min\<close>, \<^verbatim>\<open>Math.round\<close>
  and the integer arithmetic on indices are exact. With \<open>fl\<close> the rounding to the nearest
  double these definitions are the source as long as no operation overflows; with
  \<open>fl\<close> the identity they are the definitions above.
\<close>

definition windowSum_fl :: "(real \<Rightarrow> real) \<Rightarrow> ElevationPoint list \<Rightarrow> nat \<Rightarrow> real" where
  "windowSum_fl fl points i =
     foldl (\<lambda>sum j. fl (sum + elevation (points ! j))) 0 [i - windowSize ..< i + windowSize + 1]"

definition smoothAt_fl ::
  "(real \<Rightarrow> real) \<Rightarrow> ElevationPoint list \<Rightarrow> ElevationPoint list \<Rightarrow> nat \<Rightarrow> ElevationPoint list" where
  "smoothAt_fl fl points smoothed i =
     smoothed[i := (points ! i)\<lparr>elevation := fl (windowSum_fl fl points i / real (windowSize * 2 + 1))\<rparr>]"

definition smoothElevationForClimbDetection_fl ::
  "(real \<Rightarrow> real) \<Rightarrow> ElevationPoint list \<Rightarrow> ElevationPoint list" where
  "smoothElevationForClimbDetection_fl fl points =
     (if length points < 5 then points
      else foldl (smoothAt_fl fl points) points [windowSize ..< length points - windowSize])"

text \<open>\<^verbatim>\<open>Math.round(elevation / 100) * 100\<close>: the quotient is rounded, \<^verbatim>\<open>Math.round\<close> is exact, the
  product is rounded again (to a double that is a whole number).\<close>

definition generateClimbName_fl :: "(real \<Rightarrow> real) \<Rightarrow> real \<Rightarrow> real \<Rightarrow> real \<Rightarrow> nameType \<times> int" where
  "generateClimbName_fl fl elev len gradient =
     (let nameType =
        (if elev > 1500 then Col
         else if elev > 1000 then Mont
         else if gradient > 10 then Montee
         else if len > 10 then Col
         else Cote);
          elevationSuffix = round (fl (real_of_int (round (fl (elev / 100))) * 100))
      in (nameType, elevationSuffix))"

definition mergeStep_fl :: "(real \<Rightarrow> real) \<Rightarrow> ClimbSegment list \<Rightarrow> ClimbSegment \<Rightarrow> ClimbSegment list" where
  "mergeStep_fl fl merged currentClimb =
     (if length merged > 0 then
        (let lastClimb = merged ! (length merged - 1);
             distanceBetween = fl (startDistance currentClimb - endDistance lastClimb)
         in if distanceBetween < minDistanceBetweenClimbs then
              (if score currentClimb > score lastClimb
               then merged[length merged - 1 := currentClimb]
               else merged)
            else merged @ [currentClimb])
      else merged @ [currentClimb])"

definition mergeNearbyClimbs_fl :: "(real \<Rightarrow> real) \<Rightarrow> ClimbSegment list \<Rightarrow> ClimbSegment list" where
  "mergeNearbyClimbs_fl fl candidates =
     (if length candidates \<le> 1 then candidates else foldl (mergeStep_fl fl) [] candidates)"

definition pairGradient_fl :: "(real \<Rightarrow> real) \<Rightarrow> ElevationPoint \<Rightarrow> ElevationPoint \<Rightarrow> real" where
  "pairGradient_fl fl prevPoint point =
     (let elevationChange = fl (elevation point - elevation prevPoint);
          dist = fl (distance point - distance prevPoint)
      in if dist > 0 then fl (fl (elevationChange / fl (dist * 1000)) * 100) else 0)"

function findPeak_fl ::
  "(real \<Rightarrow> real) \<Rightarrow> ElevationPoint list \<Rightarrow> nat \<Rightarrow> nat \<Rightarrow> real \<times> real \<Rightarrow> real \<times> real" where
  "findPeak_fl fl sp j hi (peakD, peakE) =
     (if j < hi then
        (if elevation (sp ! j) > peakE
         then findPeak_fl fl sp (j + 1) hi (distance (sp ! j), elevation (sp ! j))
         else if elevation (sp ! j) < fl (peakE - 10) then (peakD, peakE)
         else findPeak_fl fl sp (j + 1) hi (peakD, peakE))
      else (peakD, peakE))"
  by pat_completeness auto
termination
  by (relation "measure (\<lambda>(fl, sp, j, hi, p). hi - j)") auto

declare findPeak_fl.simps [simp del]

definition closeClimb_fl ::
  "(real \<Rightarrow> real) \<Rightarrow> ElevationPoint list \<Rightarrow> nat \<Rightarrow> real \<Rightarrow> real \<Rightarrow> ClimbSegment list \<Rightarrow> ClimbSegment list" where
  "closeClimb_fl fl sp i cStart cStartElevation cs =
     (let point = sp ! i;
          climbEnd = distance point;
          climbEndElevation = elevation point;
          climbLength = fl (climbEnd - cStart);
          gain = fl (climbEndElevation - cStartElevation)
      in if climbLength \<ge> minClimbLength \<and> gain \<ge> minElevationGain then
           (let avgGradient = fl (fl (gain / fl (climbLength * 1000)) * 100)
            in if avgGradient \<ge> gradientThreshold then
                 (let (peakD, peakE) =
                        findPeak_fl fl sp i (min (i + 20) (length sp)) (climbEnd, climbEndElevation);
                      sc = fl (climbLength * fl (avgGradient * avgGradient));
                      cat = categorizeClimb sc
                  in cs @ [\<lparr>startDistance = cStart, endDistance = climbEnd,
                             startElevation = cStartElevation, endElevation = climbEndElevation,
                             length_km = climbLength, elevationGain = gain,
                             averageGradient = avgGradient, score = sc, category = cat,
                             peakDistance = peakD, peakElevation = peakE,
                             name = generateClimbName_fl fl peakE climbLength avgGradient\<rparr>])
               else cs)
         else cs)"

definition scanStep_fl :: "(real \<Rightarrow> real) \<Rightarrow> ElevationPoint list \<Rightarrow> scanState \<Rightarrow> nat \<Rightarrow> scanState" where
  "scanStep_fl fl sp st i =
     (let point = sp ! i;
          prevPoint = sp ! (i - 1);
          gradient = pairGradient_fl fl prevPoint point;
          st' =
            (if \<not> isClimbing st \<and> gradient > gradientThreshold then
               st\<lparr>climbStart := Some (distance prevPoint),
                  climbStartElevation := Some (elevation prevPoint),
                  isClimbing := True\<rparr>
             else if isClimbing st \<and> (gradient < gradientThreshold \<or> i = length sp - 1) then
               st\<lparr>climbs :=
                    (case (climbStart st, climbStartElevation st) of
                       (Some cStart, Some cStartElevation) \<Rightarrow>
                          closeClimb_fl fl sp i cStart cStartElevation (climbs st)
                     | _ \<Rightarrow> climbs st),
                  isClimbing := False, climbStart := None, climbStartElevation := None\<rparr>
             else st)
      in st'\<lparr>currentElevation := elevation point\<rparr>)"

definition scanClimbs_fl ::
  "(real \<Rightarrow> real) \<Rightarrow> ElevationPoint list \<Rightarrow> ElevationPoint list \<Rightarrow> scanState" where
  "scanClimbs_fl fl elevationPoints sp =
     foldl (scanStep_fl fl sp) (initState elevationPoints) [1 ..< length sp]"

definition detectClimbs_fl :: "(real \<Rightarrow> real) \<Rightarrow> ElevationPoint list \<Rightarrow> ClimbSegment list" where
  "detectClimbs_fl fl elevationPoints =
     (if length elevationPoints < 10 then []
      else mergeNearbyClimbs_fl fl
             (climbs (scanClimbs_fl fl elevationPoints
                        (smoothElevationForClimbDetection_fl fl elevationPoints))))"





section \<open>Properties of the merger\<close>

lemma mergeStep_Nil: "mergeStep [] c = [c]"
  by (simp add: mergeStep_def)

lemma mergeStep_snoc:
  "mergeStep (xs @ [l]) c =
     (if farApart l c then xs @ [l, c]
      else if score c > score l then xs @ [c] else xs @ [l])"
  by (simp add: mergeStep_def farApart_def Let_def not_le)

lemma mergeStep_spec: "mergeStep merged c = spec_mergeStep merged c"
proof (cases merged rule: rev_cases)
  case Nil
  then show ?thesis by (simp add: mergeStep_Nil spec_mergeStep_def)
next
  case (snoc xs l)
  then show ?thesis
    by (simp add: mergeStep_snoc spec_mergeStep_def farApart_def minDistanceBetweenClimbs_def)
qed

lemma mergeNearbyClimbs_foldl: "mergeNearbyClimbs cs = foldl mergeStep [] cs"
proof (cases cs)
  case Nil
  then show ?thesis by (simp add: mergeNearbyClimbs_def)
next
  case (Cons c cs')
  then show ?thesis
    by (cases cs') (simp_all add: mergeNearbyClimbs_def mergeStep_Nil)
qed

lemma foldl_mergeStep_spec: "foldl mergeStep acc cs = foldl spec_mergeStep acc cs"
  by (induction cs arbitrary: acc) (simp_all add: mergeStep_spec)

lemma set_mergeStep: "set (mergeStep acc c) \<subseteq> insert c (set acc)"
  by (cases acc rule: rev_cases) (auto simp: mergeStep_Nil mergeStep_snoc)

lemma set_foldl_mergeStep: "set (foldl mergeStep acc cs) \<subseteq> set acc \<union> set cs"
proof (induction cs arbitrary: acc)
  case Nil
  then show ?case by simp
next
  case (Cons c cs)
  have "set (foldl mergeStep (mergeStep acc c) cs) \<subseteq> set (mergeStep acc c) \<union> set cs"
    by (rule Cons.IH)
  with set_mergeStep [of acc c] show ?case by auto
qed

lemma set_mergeNearbyClimbs: "set (mergeNearbyClimbs cs) \<subseteq> set cs"
  using set_foldl_mergeStep [of "[]" cs] by (simp add: mergeNearbyClimbs_foldl)

lemma mergeInv_step:
  assumes "mergeInv acc (c # cs)"
  shows "mergeInv (mergeStep acc c) cs"
proof (cases acc rule: rev_cases)
  case Nil
  with assms show ?thesis by (auto simp: mergeInv_def mergeStep_Nil)
next
  case (snoc xs l)
  have le: "startDistance l \<le> startDistance c" and srt: "sorted (map startDistance cs)"
    and cle: "\<forall>d \<in> set cs. startDistance c \<le> startDistance d"
    and succ: "successively farApart (xs @ [l])"
    using assms snoc by (auto simp: mergeInv_def)
  have repl: "successively farApart (xs @ [c])"
  proof (cases xs rule: rev_cases)
    case Nil
    then show ?thesis by simp
  next
    case (snoc ys k)
    with succ have "successively farApart (ys @ [k])" and "farApart k l"
      by (auto simp: successively_append_iff)
    with le snoc show ?thesis
      by (auto simp: successively_append_iff farApart_def)
  qed
  show ?thesis
    using snoc le srt cle succ repl
    by (auto simp: mergeInv_def mergeStep_snoc successively_append_iff)
qed

lemma mergeInv_foldl: "mergeInv acc cs \<Longrightarrow> successively farApart (foldl mergeStep acc cs)"
proof (induction cs arbitrary: acc)
  case Nil
  then show ?case by (simp add: mergeInv_def)
next
  case (Cons c cs)
  then show ?case using mergeInv_step by simp
qed

lemma merge_farApart:
  "sorted (map startDistance cs) \<Longrightarrow> successively farApart (mergeNearbyClimbs cs)"
  by (simp add: mergeNearbyClimbs_foldl mergeInv_foldl mergeInv_def)

lemma foldl_mergeStep_id:
  "successively farApart (acc @ cs) \<Longrightarrow> foldl mergeStep acc cs = acc @ cs"
proof (induction cs arbitrary: acc)
  case Nil
  then show ?case by simp
next
  case (Cons c cs)
  have step: "mergeStep acc c = acc @ [c]"
  proof (cases acc rule: rev_cases)
    case Nil
    then show ?thesis by (simp add: mergeStep_Nil)
  next
    case (snoc xs l)
    with Cons.prems have "farApart l c" by (auto simp: successively_append_iff)
    with snoc show ?thesis by (simp add: mergeStep_snoc)
  qed
  from Cons.prems have "successively farApart ((acc @ [c]) @ cs)" by simp
  then have "foldl mergeStep (acc @ [c]) cs = (acc @ [c]) @ cs" by (rule Cons.IH)
  with step show ?case by simp
qed

section \<open>The invariant of the segmenter\<close>

lemma closeClimb_cases:
  "closeClimb sp i a b cs = cs \<or>
   (\<exists>seg. closeClimb sp i a b cs = cs @ [seg] \<and> emittedAt sp i seg \<and>
      startDistance seg = a \<and> startElevation seg = b)"
proof -
  define len where "len = distance (sp ! i) - a"
  define gain where "gain = elevation (sp ! i) - b"
  define avg where "avg = (gain / (len * 1000)) * 100"
  obtain pd pe where
    pk: "findPeak sp i (min (i + 20) (length sp)) (distance (sp ! i), elevation (sp ! i)) = (pd, pe)"
    by force
  define seg where "seg =
     \<lparr>startDistance = a, endDistance = distance (sp ! i),
      startElevation = b, endElevation = elevation (sp ! i),
      length_km = len, elevationGain = gain, averageGradient = avg,
      score = len * (avg * avg), category = categorizeClimb (len * (avg * avg)),
      peakDistance = pd, peakElevation = pe, name = generateClimbName pe len avg\<rparr>"
  have unfold: "closeClimb sp i a b cs =
      (if minClimbLength \<le> len \<and> minElevationGain \<le> gain \<and> gradientThreshold \<le> avg
       then cs @ [seg] else cs)"
    unfolding closeClimb_def Let_def len_def [symmetric] gain_def [symmetric]
      avg_def [symmetric] pk seg_def
    by simp
  show ?thesis
  proof (cases "minClimbLength \<le> len \<and> minElevationGain \<le> gain \<and> gradientThreshold \<le> avg")
    case True
    have "emittedAt sp i seg"
      unfolding emittedAt_def seg_def using True pk
      by (simp add: avg_def len_def gain_def)
    moreover have "startDistance seg = a \<and> startElevation seg = b"
      by (simp add: seg_def)
    ultimately show ?thesis using unfold True by auto
  next
    case False
    with unfold show ?thesis by auto
  qed
qed

lemma scanStep_start:
  assumes "\<not> isClimbing st" "pairGradient (sp ! (i - 1)) (sp ! i) > gradientThreshold"
  shows "scanStep sp st i =
           st\<lparr>climbStart := Some (distance (sp ! (i - 1))),
              climbStartElevation := Some (elevation (sp ! (i - 1))),
              isClimbing := True, currentElevation := elevation (sp ! i)\<rparr>"
  using assms by (simp add: scanStep_def Let_def)

lemma scanStep_close:
  assumes "isClimbing st"
    "pairGradient (sp ! (i - 1)) (sp ! i) < gradientThreshold \<or> i = length sp - 1"
    "climbStart st = Some a" "climbStartElevation st = Some b"
  shows "scanStep sp st i =
           st\<lparr>climbs := closeClimb sp i a b (climbs st), isClimbing := False,
              climbStart := None, climbStartElevation := None,
              currentElevation := elevation (sp ! i)\<rparr>"
  using assms by (auto simp: scanStep_def Let_def)

lemma scanStep_keep:
  assumes "isClimbing st \<or> \<not> pairGradient (sp ! (i - 1)) (sp ! i) > gradientThreshold"
    "\<not> (isClimbing st \<and>
        (pairGradient (sp ! (i - 1)) (sp ! i) < gradientThreshold \<or> i = length sp - 1))"
  shows "scanStep sp st i = st\<lparr>currentElevation := elevation (sp ! i)\<rparr>"
  using assms by (auto simp: scanStep_def Let_def)

lemma scanUpTo_Suc: "1 \<le> k \<Longrightarrow> scanUpTo pts sp (Suc k) = scanStep sp (scanUpTo pts sp k) k"
  by (simp add: scanUpTo_def)

lemma scanUpTo_1: "scanUpTo pts sp (Suc 0) = initState pts"
  by (simp add: scanUpTo_def)

lemma scanInv_step:
  assumes inv: "scanInv sp k st" and k: "1 \<le> k"
  shows "scanInv sp (Suc k) (scanStep sp st k)"
proof -
  let ?g = "pairGradient (sp ! (k - 1)) (sp ! k)"
  from inv have old: "\<forall>seg \<in> set (climbs st). \<exists>i s. s < i \<and> i < Suc k \<and> emittedAt sp i seg \<and> startsAt sp s seg"
    unfolding scanInv_def using less_Suc_eq by blast
  consider (start) "\<not> isClimbing st" "?g > gradientThreshold"
    | (close) "isClimbing st" "?g < gradientThreshold \<or> k = length sp - 1"
    | (keep) "isClimbing st \<or> \<not> ?g > gradientThreshold"
        "\<not> (isClimbing st \<and> (?g < gradientThreshold \<or> k = length sp - 1))"
    by blast
  then show ?thesis
  proof cases
    case start
    have "k - 1 < Suc k" by simp
    with old show ?thesis
      unfolding scanInv_def scanStep_start [OF start] by auto
  next
    case close
    from inv close(1) obtain s where s: "s < k"
      and cs: "climbStart st = Some (distance (sp ! s))"
      and ce: "climbStartElevation st = Some (elevation (sp ! s))"
      unfolding scanInv_def by blast
    let ?cl = "closeClimb sp k (distance (sp ! s)) (elevation (sp ! s)) (climbs st)"
    have "\<forall>seg \<in> set ?cl. \<exists>i s. s < i \<and> i < Suc k \<and> emittedAt sp i seg \<and> startsAt sp s seg"
      using closeClimb_cases [of sp k "distance (sp ! s)" "elevation (sp ! s)" "climbs st"]
    proof
      assume "?cl = climbs st"
      with old show ?thesis by simp
    next
      assume "\<exists>seg. ?cl = climbs st @ [seg] \<and> emittedAt sp k seg \<and>
                startDistance seg = distance (sp ! s) \<and> startElevation seg = elevation (sp ! s)"
      then obtain seg where seg: "?cl = climbs st @ [seg]" "emittedAt sp k seg" "startsAt sp s seg"
        unfolding startsAt_def by blast
      have "\<exists>i s. s < i \<and> i < Suc k \<and> emittedAt sp i seg \<and> startsAt sp s seg"
        using seg(2,3) s by blast
      with old seg(1) show ?thesis by auto
    qed
    then show ?thesis
      unfolding scanInv_def scanStep_close [OF close cs ce] by simp
  next
    case keep
    from inv have "isClimbing st \<longrightarrow>
        (\<exists>s < Suc k. climbStart st = Some (distance (sp ! s)) \<and>
                  climbStartElevation st = Some (elevation (sp ! s)))"
      unfolding scanInv_def using less_Suc_eq by blast
    with old show ?thesis
      unfolding scanInv_def scanStep_keep [OF keep] by simp
  qed
qed

lemma scanInv_scanUpTo: "1 \<le> k \<Longrightarrow> scanInv sp k (scanUpTo pts sp k)"
proof (induction k rule: dec_induct)
  case base
  show ?case by (simp add: scanUpTo_1 scanInv_def initState_def)
next
  case (step n)
  then show ?case by (simp add: scanUpTo_Suc scanInv_step)
qed

lemma scanClimbs_scanUpTo: "scanClimbs pts sp = scanUpTo pts sp (length sp)"
  by (simp add: scanClimbs_def scanUpTo_def)

lemma scanUpTo_low: "k \<le> 1 \<Longrightarrow> scanUpTo pts sp k = initState pts"
  by (simp add: scanUpTo_def)

lemma climbs_emitted:
  assumes "seg \<in> set (climbs (scanClimbs pts sp))"
  shows "\<exists>i s. s < i \<and> i < length sp \<and> emittedAt sp i seg \<and> startsAt sp s seg"
proof (cases "1 \<le> length sp")
  case True
  then have "scanInv sp (length sp) (scanClimbs pts sp)"
    by (simp add: scanClimbs_scanUpTo scanInv_scanUpTo)
  with assms show ?thesis unfolding scanInv_def by blast
next
  case False
  then have "scanClimbs pts sp = initState pts"
    by (simp add: scanClimbs_scanUpTo scanUpTo_low)
  with assms show ?thesis by (simp add: initState_def)
qed

section \<open>Properties of the smoother\<close>

lemma length_smoothAt: "length (smoothAt points acc b) = length acc"
  by (simp add: smoothAt_def)

lemma nth_smoothAt:
  "i < length acc \<Longrightarrow>
   smoothAt points acc b ! i =
     (if i = b then (points ! i)\<lparr>elevation := windowSum points i / real (windowSize * 2 + 1)\<rparr>
      else acc ! i)"
  by (simp add: smoothAt_def nth_list_update)

lemma length_foldl_smoothAt: "length (foldl (smoothAt points) acc js) = length acc"
  by (induction js arbitrary: acc) (simp_all add: length_smoothAt)

lemma nth_foldl_smoothAt:
  "i < length acc \<Longrightarrow>
   foldl (smoothAt points) acc [a ..< b] ! i =
     (if a \<le> i \<and> i < b
      then (points ! i)\<lparr>elevation := windowSum points i / real (windowSize * 2 + 1)\<rparr>
      else acc ! i)"
proof (induction b)
  case 0
  then show ?case by simp
next
  case (Suc b)
  show ?case
  proof (cases "a \<le> b")
    case True
    have unroll: "foldl (smoothAt points) acc [a ..< Suc b] =
               smoothAt points (foldl (smoothAt points) acc [a ..< b]) b"
      using True by simp
    have IH: "foldl (smoothAt points) acc [a ..< b] ! i =
       (if a \<le> i \<and> i < b
        then (points ! i)\<lparr>elevation := windowSum points i / real (windowSize * 2 + 1)\<rparr>
        else acc ! i)"
      using Suc by blast
    have "smoothAt points (foldl (smoothAt points) acc [a ..< b]) b ! i =
       (if i = b then (points ! i)\<lparr>elevation := windowSum points i / real (windowSize * 2 + 1)\<rparr>
        else foldl (smoothAt points) acc [a ..< b] ! i)"
      using Suc.prems by (intro nth_smoothAt) (simp add: length_foldl_smoothAt)
    then show ?thesis
      unfolding unroll IH using True by (auto simp: less_Suc_eq)
  next
    case False
    with Suc show ?thesis by simp
  qed
qed

lemma windowSum_sum:
  "windowSum points i = (\<Sum>j = i - 3 .. i + 3. elevation (points ! j))"
proof -
  have fold_sum: "foldl (\<lambda>s j. s + f j) a js = a + sum_list (map f js)" for f :: "nat \<Rightarrow> real" and a js
    by (induction js arbitrary: a) simp_all
  have "windowSum points i = sum_list (map (\<lambda>j. elevation (points ! j)) [i - 3 ..< i + 3 + 1])"
    by (simp add: windowSum_def windowSize_def fold_sum)
  also have "\<dots> = (\<Sum>j \<in> set [i - 3 ..< i + 3 + 1]. elevation (points ! j))"
    by (rule interv_sum_list_conv_sum_set_nat)
  also have "set [i - 3 ..< i + 3 + 1] = {i - 3 .. i + 3}"
    by auto
  finally show ?thesis .
qed

lemma length_smooth [simp]:
  "length (smoothElevationForClimbDetection points) = length points"
  by (simp add: smoothElevationForClimbDetection_def length_foldl_smoothAt)

lemma nth_smooth:
  assumes "i < length points"
  shows "smoothElevationForClimbDetection points ! i =
     (if 3 \<le> i \<and> i + 3 < length points
      then (points ! i)\<lparr>elevation := (\<Sum>j = i - 3 .. i + 3. elevation (points ! j)) / 7\<rparr>
      else points ! i)"
proof (cases "length points < 5")
  case True
  then show ?thesis by (auto simp: smoothElevationForClimbDetection_def)
next
  case False
  have "(i < length points - windowSize) = (i + 3 < length points)"
    by (auto simp: windowSize_def)
  with False assms show ?thesis
    by (simp add: smoothElevationForClimbDetection_def nth_foldl_smoothAt windowSum_sum)
       (simp add: windowSize_def)
qed

lemma distance_smooth:
  "i < length points \<Longrightarrow> distance (smoothElevationForClimbDetection points ! i) = distance (points ! i)"
  by (simp add: nth_smooth)

lemma map_distance_smooth:
  "map distance (smoothElevationForClimbDetection points) = map distance points"
  by (rule nth_equalityI) (simp_all add: distance_smooth)

section \<open>The look-ahead for the peak\<close>

lemma runningMax_single: "runningMax sp i (Suc i) = elevation (sp ! i)"
  by (simp add: runningMax_def)

lemma runningMax_Suc:
  "i < k \<Longrightarrow> runningMax sp i (Suc k) = max (runningMax sp i k) (elevation (sp ! k))"
proof -
  assume "i < k"
  then have "{i ..< Suc k} = insert k {i ..< k}" by auto
  moreover have "(\<lambda>l. elevation (sp ! l)) ` {i ..< k} \<noteq> {}" using \<open>i < k\<close> by simp
  ultimately show ?thesis
    by (simp add: runningMax_def max.commute)
qed

lemma runningMax_ge: "i \<le> l \<Longrightarrow> l < k \<Longrightarrow> elevation (sp ! l) \<le> runningMax sp i k"
  by (simp add: runningMax_def)

lemma peakState_raise:
  assumes ps: "peakState sp i j (pd, pe)" and gt: "elevation (sp ! j) > pe"
  shows "peakState sp i (Suc j) (distance (sp ! j), elevation (sp ! j))"
proof -
  from ps have ij: "i < j" and pe: "pe = runningMax sp i j"
    and old: "\<forall>l. i \<le> l \<and> l < j \<longrightarrow> runningMax sp i (Suc l) - 10 \<le> elevation (sp ! l)"
    by (auto simp: peakState_def)
  have mx: "runningMax sp i (Suc j) = elevation (sp ! j)"
    using ij gt pe by (simp add: runningMax_Suc)
  have below: "\<forall>l. i \<le> l \<and> l < j \<longrightarrow> elevation (sp ! l) < elevation (sp ! j)"
  proof (intro allI impI)
    fix l assume "i \<le> l \<and> l < j"
    then have "elevation (sp ! l) \<le> pe" unfolding pe by (simp add: runningMax_ge)
    with gt show "elevation (sp ! l) < elevation (sp ! j)" by simp
  qed
  have drop: "\<forall>l. i \<le> l \<and> l < Suc j \<longrightarrow> runningMax sp i (Suc l) - 10 \<le> elevation (sp ! l)"
  proof (intro allI impI)
    fix l assume l: "i \<le> l \<and> l < Suc j"
    show "runningMax sp i (Suc l) - 10 \<le> elevation (sp ! l)"
    proof (cases "l = j")
      case True
      then show ?thesis using mx by simp
    next
      case False
      with l old show ?thesis by simp
    qed
  qed
  have "\<exists>m. i \<le> m \<and> m < Suc j \<and> distance (sp ! j) = distance (sp ! m) \<and>
          elevation (sp ! m) = elevation (sp ! j) \<and>
          (\<forall>l. i \<le> l \<and> l < m \<longrightarrow> elevation (sp ! l) < elevation (sp ! j))"
    using ij below by (intro exI [of _ j]) simp
  then show ?thesis
    using ij mx drop by (simp add: peakState_def)
qed

lemma peakState_keep:
  assumes ps: "peakState sp i j (pd, pe)" and le: "\<not> elevation (sp ! j) > pe"
    and nd: "\<not> elevation (sp ! j) < pe - 10"
  shows "peakState sp i (Suc j) (pd, pe)"
proof -
  from ps have ij: "i < j" and pe: "pe = runningMax sp i j"
    and old: "\<forall>l. i \<le> l \<and> l < j \<longrightarrow> runningMax sp i (Suc l) - 10 \<le> elevation (sp ! l)"
    and loc: "\<exists>m. i \<le> m \<and> m < j \<and> pd = distance (sp ! m) \<and> elevation (sp ! m) = pe \<and>
          (\<forall>l. i \<le> l \<and> l < m \<longrightarrow> elevation (sp ! l) < pe)"
    by (auto simp: peakState_def)
  have mx: "runningMax sp i (Suc j) = pe"
    using ij le pe by (simp add: runningMax_Suc)
  have drop: "\<forall>l. i \<le> l \<and> l < Suc j \<longrightarrow> runningMax sp i (Suc l) - 10 \<le> elevation (sp ! l)"
  proof (intro allI impI)
    fix l assume l: "i \<le> l \<and> l < Suc j"
    show "runningMax sp i (Suc l) - 10 \<le> elevation (sp ! l)"
    proof (cases "l = j")
      case True
      then show ?thesis using mx nd by simp
    next
      case False
      with l old show ?thesis by simp
    qed
  qed
  from loc obtain m where "i \<le> m \<and> m < Suc j \<and> pd = distance (sp ! m) \<and> elevation (sp ! m) = pe \<and>
          (\<forall>l. i \<le> l \<and> l < m \<longrightarrow> elevation (sp ! l) < pe)"
    using less_Suc_eq by blast
  then have "\<exists>m. i \<le> m \<and> m < Suc j \<and> pd = distance (sp ! m) \<and> elevation (sp ! m) = pe \<and>
          (\<forall>l. i \<le> l \<and> l < m \<longrightarrow> elevation (sp ! l) < pe)" ..
  then show ?thesis
    using ij mx drop by (simp add: peakState_def)
qed

lemma findPeak_char:
  "peakState sp i j (pd, pe) \<Longrightarrow> j \<le> hi \<Longrightarrow>
   \<exists>k. j \<le> k \<and> k \<le> hi \<and> peakState sp i k (findPeak sp j hi (pd, pe)) \<and>
       (k < hi \<longrightarrow> elevation (sp ! k) < snd (findPeak sp j hi (pd, pe)) - 10)"
proof (induction sp j hi "(pd, pe)" arbitrary: pd pe rule: findPeak.induct)
  case (1 sp j hi pd pe)
  show ?case
  proof (cases "j < hi")
    case False
    with "1.prems" have "j = hi" by simp
    with "1.prems" show ?thesis
      by (intro exI [of _ j]) (simp add: findPeak.simps)
  next
    case True
    consider (raise) "elevation (sp ! j) > pe"
      | (stop) "\<not> elevation (sp ! j) > pe" "elevation (sp ! j) < pe - 10"
      | (keep) "\<not> elevation (sp ! j) > pe" "\<not> elevation (sp ! j) < pe - 10"
      by blast
    then show ?thesis
    proof cases
      case raise
      have eq: "findPeak sp j hi (pd, pe) =
                findPeak sp (j + 1) hi (distance (sp ! j), elevation (sp ! j))"
        using True raise by (subst findPeak.simps) simp
      have "peakState sp i (j + 1) (distance (sp ! j), elevation (sp ! j))"
        using peakState_raise [OF "1.prems"(1) raise] by simp
      moreover have "j + 1 \<le> hi" using True by simp
      ultimately obtain k where "j + 1 \<le> k \<and> k \<le> hi \<and>
          peakState sp i k (findPeak sp (j + 1) hi (distance (sp ! j), elevation (sp ! j))) \<and>
          (k < hi \<longrightarrow> elevation (sp ! k) <
             snd (findPeak sp (j + 1) hi (distance (sp ! j), elevation (sp ! j))) - 10)"
        using "1.hyps"(1) [OF True raise] by blast
      then show ?thesis unfolding eq by (intro exI [of _ k]) simp
    next
      case stop
      have eq: "findPeak sp j hi (pd, pe) = (pd, pe)"
        using True stop by (subst findPeak.simps) simp
      show ?thesis unfolding eq using "1.prems" True stop by (intro exI [of _ j]) simp
    next
      case keep
      have eq: "findPeak sp j hi (pd, pe) = findPeak sp (j + 1) hi (pd, pe)"
        using True keep by (subst findPeak.simps) simp
      have "peakState sp i (j + 1) (pd, pe)"
        using peakState_keep [OF "1.prems"(1) keep] by simp
      moreover have "j + 1 \<le> hi" using True by simp
      ultimately obtain k where "j + 1 \<le> k \<and> k \<le> hi \<and>
          peakState sp i k (findPeak sp (j + 1) hi (pd, pe)) \<and>
          (k < hi \<longrightarrow> elevation (sp ! k) < snd (findPeak sp (j + 1) hi (pd, pe)) - 10)"
        using "1.hyps"(2) [OF True keep] by blast
      then show ?thesis unfolding eq by (intro exI [of _ k]) simp
    qed
  qed
qed

lemma findPeak_closing:
  assumes "i < length sp"
  shows "\<exists>k. i < k \<and> k \<le> min (i + 20) (length sp) \<and>
      peakState sp i k (findPeak sp i (min (i + 20) (length sp)) (distance (sp ! i), elevation (sp ! i))) \<and>
      (k < min (i + 20) (length sp) \<longrightarrow>
         elevation (sp ! k) <
           snd (findPeak sp i (min (i + 20) (length sp)) (distance (sp ! i), elevation (sp ! i))) - 10)"
proof -
  let ?hi = "min (i + 20) (length sp)"
  let ?p = "(distance (sp ! i), elevation (sp ! i))"
  have hi: "Suc i \<le> ?hi" using assms by simp
  then have first: "findPeak sp i ?hi ?p = findPeak sp (Suc i) ?hi ?p"
    by (subst findPeak.simps) simp
  have loc: "\<exists>m. i \<le> m \<and> m < Suc i \<and> distance (sp ! i) = distance (sp ! m) \<and>
          elevation (sp ! m) = elevation (sp ! i) \<and>
          (\<forall>l. i \<le> l \<and> l < m \<longrightarrow> elevation (sp ! l) < elevation (sp ! i))"
    by (intro exI [of _ i]) simp
  have drop: "\<forall>l. i \<le> l \<and> l < Suc i \<longrightarrow> runningMax sp i (Suc l) - 10 \<le> elevation (sp ! l)"
  proof (intro allI impI)
    fix l assume "i \<le> l \<and> l < Suc i"
    then have "l = i" by simp
    then show "runningMax sp i (Suc l) - 10 \<le> elevation (sp ! l)"
      by (simp add: runningMax_single)
  qed
  have "peakState sp i (Suc i) ?p"
    using loc drop by (simp add: peakState_def runningMax_single)
  from findPeak_char [OF this hi] obtain k where
    "Suc i \<le> k \<and> k \<le> ?hi \<and> peakState sp i k (findPeak sp (Suc i) ?hi ?p) \<and>
       (k < ?hi \<longrightarrow> elevation (sp ! k) < snd (findPeak sp (Suc i) ?hi ?p) - 10)"
    by blast
  then show ?thesis unfolding first by (intro exI [of _ k]) simp
qed

section \<open>Order of the detected climbs\<close>

lemma distance_mono:
  assumes "sorted (map distance sp)" "a \<le> b" "b < length sp"
  shows "distance (sp ! a) \<le> distance (sp ! b)"
  using sorted_nth_mono [of "map distance sp" a b] assms by simp




lemma detect_emitted:
  assumes "seg \<in> set (detectClimbs pts)"
  shows "\<exists>i s. s < i \<and> i < length pts \<and>
           emittedAt (smoothElevationForClimbDetection pts) i seg \<and>
           startsAt (smoothElevationForClimbDetection pts) s seg"
proof -
  let ?sp = "smoothElevationForClimbDetection pts"
  from assms have "seg \<in> set (mergeNearbyClimbs (climbs (scanClimbs pts ?sp)))"
    by (simp add: detectClimbs_def split: if_splits)
  then have "seg \<in> set (climbs (scanClimbs pts ?sp))"
    using set_mergeNearbyClimbs by blast
  from climbs_emitted [OF this] show ?thesis by simp
qed




section \<open>The example track\<close>

lemma exTrack_detect: "detectClimbs exTrack = [exClimb1, exClimb2]"
  by code_simp

lemma exTrack_sorted: "sorted (map distance exTrack)"
  by code_simp

lemma exTrack_smooth:
  "smoothElevationForClimbDetection exTrack =
     [\<lparr>distance = 0, elevation = 0\<rparr>, \<lparr>distance = 1, elevation = 0\<rparr>,
      \<lparr>distance = 2, elevation = 0\<rparr>, \<lparr>distance = 3, elevation = 600 / 7\<rparr>,
      \<lparr>distance = 4, elevation = 1000 / 7\<rparr>, \<lparr>distance = 5, elevation = 200\<rparr>,
      \<lparr>distance = 6, elevation = 1800 / 7\<rparr>, \<lparr>distance = 7, elevation = 2200 / 7\<rparr>,
      \<lparr>distance = 8, elevation = 2500 / 7\<rparr>, \<lparr>distance = 9, elevation = 2700 / 7\<rparr>,
      \<lparr>distance = 10, elevation = 2900 / 7\<rparr>, \<lparr>distance = 11, elevation = 3100 / 7\<rparr>,
      \<lparr>distance = 12, elevation = 3400 / 7\<rparr>, \<lparr>distance = 13, elevation = 3800 / 7\<rparr>,
      \<lparr>distance = 14, elevation = 600\<rparr>, \<lparr>distance = 15, elevation = 4600 / 7\<rparr>,
      \<lparr>distance = 16, elevation = 5000 / 7\<rparr>, \<lparr>distance = 17, elevation = 800\<rparr>,
      \<lparr>distance = 18, elevation = 800\<rparr>, \<lparr>distance = 19, elevation = 800\<rparr>]"
  by code_simp

lemma detect_peak:
  assumes "seg \<in> set (detectClimbs pts)"
  shows "\<exists>i k. 1 \<le> i \<and> i < length pts \<and>
     endDistance seg = distance (smoothElevationForClimbDetection pts ! i) \<and>
     endElevation seg = elevation (smoothElevationForClimbDetection pts ! i) \<and>
     i < k \<and> k \<le> min (i + 20) (length pts) \<and>
     peakState (smoothElevationForClimbDetection pts) i k (peakDistance seg, peakElevation seg) \<and>
     (k < min (i + 20) (length pts) \<longrightarrow>
        elevation (smoothElevationForClimbDetection pts ! k) < peakElevation seg - 10)"
proof -
  let ?sp = "smoothElevationForClimbDetection pts"
  from detect_emitted [OF assms] obtain i s where i: "s < i" "i < length pts"
    and em: "emittedAt ?sp i seg" by blast
  from em have ends: "endDistance seg = distance (?sp ! i)" "endElevation seg = elevation (?sp ! i)"
    and pk: "(peakDistance seg, peakElevation seg) =
        findPeak ?sp i (min (i + 20) (length ?sp)) (distance (?sp ! i), elevation (?sp ! i))"
    by (simp_all add: emittedAt_def)
  have "i < length ?sp" using i by simp
  from findPeak_closing [OF this] obtain k where
    "i < k \<and> k \<le> min (i + 20) (length ?sp) \<and>
      peakState ?sp i k (peakDistance seg, peakElevation seg) \<and>
      (k < min (i + 20) (length ?sp) \<longrightarrow> elevation (?sp ! k) < peakElevation seg - 10)"
    unfolding pk [symmetric] by auto
  with i ends show ?thesis
    by (intro exI [of _ i] exI [of _ k]) simp
qed

section \<open>The detector in rounded arithmetic: tracks without a steep pair\<close>






lemma length_smoothAt_fl: "length (smoothAt_fl fl points acc b) = length acc"
  by (simp add: smoothAt_fl_def)


lemma length_foldl_smoothAt_fl: "length (foldl (smoothAt_fl fl points) acc js) = length acc"
  by (induction js arbitrary: acc) (simp_all add: length_smoothAt_fl)


lemma length_smooth_fl [simp]:
  "length (smoothElevationForClimbDetection_fl fl points) = length points"
  by (simp add: smoothElevationForClimbDetection_fl_def length_foldl_smoothAt_fl)















lemma findPeak_fl_exact: "findPeak_fl (\<lambda>x. x) sp j hi p = findPeak sp j hi p"
proof (induction sp j hi p rule: findPeak.induct)
  case (1 sp j hi peakD peakE)
  then show ?case
    by (subst findPeak_fl.simps, subst findPeak.simps) simp
qed

lemma detectClimbs_fl_exact: "detectClimbs_fl (\<lambda>x. x) pts = detectClimbs pts"
proof -
  have ws: "windowSum_fl (\<lambda>x. x) points i = windowSum points i" for points i
    by (simp add: windowSum_fl_def windowSum_def)
  have sa: "smoothAt_fl (\<lambda>x. x) points = smoothAt points" for points
    by (intro ext) (simp add: smoothAt_fl_def smoothAt_def ws)
  have sm: "smoothElevationForClimbDetection_fl (\<lambda>x. x) points =
            smoothElevationForClimbDetection points" for points
    by (simp add: smoothElevationForClimbDetection_fl_def smoothElevationForClimbDetection_def sa)
  have pg: "pairGradient_fl (\<lambda>x. x) p q = pairGradient p q" for p q
    by (simp add: pairGradient_fl_def pairGradient_def)
  have "round (real_of_int n * 100) = n * 100" for n
  proof -
    have "real_of_int n * 100 = real_of_int (n * 100)" by simp
    then show ?thesis by (simp only: round_of_int)
  qed
  then have gn: "generateClimbName_fl (\<lambda>x. x) e l g = generateClimbName e l g" for e l g
    by (simp add: generateClimbName_fl_def generateClimbName_def)
  have cc: "closeClimb_fl (\<lambda>x. x) sp i a b cs = closeClimb sp i a b cs" for sp i a b cs
    unfolding closeClimb_fl_def closeClimb_def findPeak_fl_exact gn by simp
  have ss: "scanStep_fl (\<lambda>x. x) sp = scanStep sp" for sp
    unfolding scanStep_fl_def scanStep_def pg cc by (intro ext) simp
  have sc: "scanClimbs_fl (\<lambda>x. x) pts' sp = scanClimbs pts' sp" for pts' sp
    by (simp add: scanClimbs_fl_def scanClimbs_def ss)
  have ms: "mergeStep_fl (\<lambda>x. x) = mergeStep"
    by (intro ext) (simp add: mergeStep_fl_def mergeStep_def)
  have mn: "mergeNearbyClimbs_fl (\<lambda>x. x) cs = mergeNearbyClimbs cs" for cs
    by (simp add: mergeNearbyClimbs_fl_def mergeNearbyClimbs_def ms)
  show ?thesis
    by (simp add: detectClimbs_fl_def detectClimbs_def sm sc mn)
qed

section \<open>The claims\<close>

text \<open>
  C1. Every segment that \<^const>\<open>detectClimbs\<close> returns has a length of at least 0.5 km, an
  elevation gain of at least 30 m and an average gradient of at least 3 percent. The two
  gates of the segmenter guard the push, and the merger only keeps or drops candidates, so
  this holds for every input, and in particular for every valid one (at least 10 samples,
  non-decreasing distances).
\<close>

theorem detected_climbs_pass_gates:
  "seg \<in> set (detectClimbs pts) \<Longrightarrow>
     length_km seg \<ge> 0.5 \<and> elevationGain seg \<ge> 30 \<and> averageGradient seg \<ge> 3.0"
proof -
  assume "seg \<in> set (detectClimbs pts)"
  from detect_emitted [OF this] obtain i where
    "emittedAt (smoothElevationForClimbDetection pts) i seg" by blast
  then have "minClimbLength \<le> length_km seg" "minElevationGain \<le> elevationGain seg"
    "gradientThreshold \<le> averageGradient seg"
    unfolding emittedAt_def by blast+
  then show ?thesis
    by (simp add: minClimbLength_def minElevationGain_def gradientThreshold_def)
qed

theorem detected_climbs_pass_gates_witness:
  "length exTrack \<ge> 10 \<and> sorted (map distance exTrack) \<and>
   exClimb2 \<in> set (detectClimbs exTrack) \<and>
   length_km exClimb2 \<ge> 0.5 \<and> elevationGain exClimb2 \<ge> 30 \<and> averageGradient exClimb2 \<ge> 3.0"
proof -
  have mem: "exClimb2 \<in> set (detectClimbs exTrack)"
    by (simp add: exTrack_detect)
  have "length exTrack \<ge> 10"
    by code_simp
  with mem exTrack_sorted detected_climbs_pass_gates [OF mem] show ?thesis
    by simp
qed

text \<open>
  C2. The merger processes the candidates from left to right against one accumulator: a
  candidate is appended when the accumulator is empty or its start is at least 2 km after the
  end of the last kept segment; otherwise it replaces the last kept segment exactly when its
  score is strictly greater, and is dropped otherwise. Earlier kept segments are never looked
  at again: a step on the accumulator \<open>xs @ [l]\<close> leaves \<open>xs\<close> as it is and decides from
  \<open>l\<close> alone.
\<close>

theorem merge_single_lookback:
  "mergeNearbyClimbs cs = spec_merge cs
   \<and> mergeStep (xs @ [l]) c = xs @ mergeStep [l] c"
proof
  show "mergeNearbyClimbs cs = spec_merge cs"
    by (simp add: mergeNearbyClimbs_foldl spec_merge_def foldl_mergeStep_spec)
  show "mergeStep (xs @ [l]) c = xs @ mergeStep [l] c"
    using mergeStep_snoc [of xs l c] mergeStep_snoc [of "[]" l c] by simp
qed

theorem merge_single_lookback_witness:
  "mergeNearbyClimbs exCandidates = spec_merge exCandidates
   \<and> mergeNearbyClimbs exCandidates = [climbOf 0 0 5 400, climbOf 12 400 14 500]
   \<and> mergeStep ([climbOf 0 0 5 400] @ [climbOf 12 400 14 500]) (climbOf 13 300 15 600) =
       [climbOf 0 0 5 400] @ mergeStep [climbOf 12 400 14 500] (climbOf 13 300 15 600)
   \<and> mergeStep [climbOf 12 400 14 500] (climbOf 13 300 15 600) = [climbOf 13 300 15 600]"
proof -
  have kept: "mergeNearbyClimbs exCandidates = [climbOf 0 0 5 400, climbOf 12 400 14 500]"
    by code_simp
  have repl: "mergeStep [climbOf 12 400 14 500] (climbOf 13 300 15 600) = [climbOf 13 300 15 600]"
    by code_simp
  from kept repl
    merge_single_lookback [of exCandidates "[climbOf 0 0 5 400]" "climbOf 12 400 14 500"
      "climbOf 13 300 15 600"]
  show ?thesis by blast
qed



text \<open>
  C4. The category depends on the score alone, with fixed breakpoints: at least 600 gives HC,
  from 300 up to 600 gives 1, from 150 up to 300 gives 2, from 75 up to 150 gives 3, a
  positive score below 75 gives 4, and a score of 0 or less gives none. In particular 600
  maps to HC, 299.9 to 2 and 0 to none. In every returned segment the score is the length
  times the square of the average gradient, and the category is the one of that score.
\<close>

theorem category_from_score:
  "(sc \<ge> 600 \<longrightarrow> categorizeClimb sc = Some HC)
   \<and> (300 \<le> sc \<and> sc < 600 \<longrightarrow> categorizeClimb sc = Some Cat1)
   \<and> (150 \<le> sc \<and> sc < 300 \<longrightarrow> categorizeClimb sc = Some Cat2)
   \<and> (75 \<le> sc \<and> sc < 150 \<longrightarrow> categorizeClimb sc = Some Cat3)
   \<and> (0 < sc \<and> sc < 75 \<longrightarrow> categorizeClimb sc = Some Cat4)
   \<and> (sc \<le> 0 \<longrightarrow> categorizeClimb sc = None)
   \<and> categorizeClimb 600 = Some HC
   \<and> categorizeClimb 299.9 = Some Cat2
   \<and> categorizeClimb 0 = None
   \<and> (seg \<in> set (detectClimbs pts) \<longrightarrow>
        score seg = length_km seg * (averageGradient seg)\<^sup>2 \<and>
        category seg = categorizeClimb (score seg))"
proof -
  have "score seg = length_km seg * (averageGradient seg)\<^sup>2 \<and>
        category seg = categorizeClimb (score seg)" if "seg \<in> set (detectClimbs pts)"
  proof -
    from detect_emitted [OF that] obtain i where
      "emittedAt (smoothElevationForClimbDetection pts) i seg" by blast
    then show ?thesis by (simp add: emittedAt_def power2_eq_square)
  qed
  then show ?thesis
    by (simp add: categorizeClimb_def)
qed

theorem category_from_score_witness:
  "categorizeClimb 750 = Some HC \<and> categorizeClimb 320 = Some Cat1
   \<and> categorizeClimb 200 = Some Cat2 \<and> categorizeClimb 75 = Some Cat3
   \<and> categorizeClimb (1/2) = Some Cat4 \<and> categorizeClimb (-5) = None
   \<and> exClimb1 \<in> set (detectClimbs exTrack)
   \<and> score exClimb1 = length_km exClimb1 * (averageGradient exClimb1)\<^sup>2
   \<and> category exClimb1 = categorizeClimb (score exClimb1)"
proof -
  have mem: "exClimb1 \<in> set (detectClimbs exTrack)"
    by (simp add: exTrack_detect)
  show ?thesis
    using mem
      category_from_score [of 750 exClimb1 exTrack] category_from_score [of 320 exClimb1 exTrack]
      category_from_score [of 200 exClimb1 exTrack] category_from_score [of 75 exClimb1 exTrack]
      category_from_score [of "1/2" exClimb1 exTrack] category_from_score [of "-5" exClimb1 exTrack]
    by simp
qed

text \<open>
  C5. On a candidate list ordered by start distance the merger is idempotent: merging its
  own output gives that output again.
\<close>

theorem merge_idempotent:
  assumes "sorted (map startDistance cs)"
  shows "mergeNearbyClimbs (mergeNearbyClimbs cs) = mergeNearbyClimbs cs"
proof -
  have "successively farApart (mergeNearbyClimbs cs)"
    using assms by (rule merge_farApart)
  then have "foldl mergeStep [] (mergeNearbyClimbs cs) = mergeNearbyClimbs cs"
    using foldl_mergeStep_id [of "[]" "mergeNearbyClimbs cs"] by simp
  then show ?thesis by (simp add: mergeNearbyClimbs_foldl)
qed

theorem merge_idempotent_witness:
  "sorted (map startDistance exCandidates) \<and>
   length (mergeNearbyClimbs exCandidates) < length exCandidates \<and>
   mergeNearbyClimbs (mergeNearbyClimbs exCandidates) = mergeNearbyClimbs exCandidates"
proof -
  have srt: "sorted (map startDistance exCandidates)"
    by (simp add: exCandidates_def climbOf_def Let_def)
  have "length (mergeNearbyClimbs exCandidates) < length exCandidates"
    by code_simp
  with srt merge_idempotent [OF srt] show ?thesis by simp
qed

text \<open>
  C6. For every returned segment there is a closing index \<open>i\<close> (the sample of the segment's
  end) and a bound \<open>k\<close> with \<open>i < k \<le> i + 20\<close>, \<open>k \<le> length\<close>, such that the look-ahead
  scanned exactly the smoothed samples \<open>i, \<dots>, k - 1\<close>: the peak elevation is their maximum,
  the peak distance is the distance of the first sample that reaches it, none of them lay
  more than 10 m below the maximum reached with it, and when \<open>k\<close> is short of both bounds the
  scan stopped there because sample \<open>k\<close> lies more than 10 m below the running maximum. So
  the scan starts at the closing index and covers at most 20 samples, the closing one
  included.
\<close>

theorem peak_refinement:
  assumes "seg \<in> set (detectClimbs pts)"
  shows "\<exists>i k. 1 \<le> i \<and> i < length pts \<and>
     endDistance seg = distance (smoothElevationForClimbDetection pts ! i) \<and>
     endElevation seg = elevation (smoothElevationForClimbDetection pts ! i) \<and>
     i < k \<and> k \<le> i + 20 \<and> k \<le> length pts \<and>
     peakElevation seg = runningMax (smoothElevationForClimbDetection pts) i k \<and>
     (\<exists>m. i \<le> m \<and> m < k \<and>
          peakDistance seg = distance (smoothElevationForClimbDetection pts ! m) \<and>
          elevation (smoothElevationForClimbDetection pts ! m) = peakElevation seg \<and>
          (\<forall>l. i \<le> l \<and> l < m \<longrightarrow>
               elevation (smoothElevationForClimbDetection pts ! l) < peakElevation seg)) \<and>
     (\<forall>l. i \<le> l \<and> l < k \<longrightarrow>
          runningMax (smoothElevationForClimbDetection pts) i (Suc l) - 10
            \<le> elevation (smoothElevationForClimbDetection pts ! l)) \<and>
     (k < i + 20 \<and> k < length pts \<longrightarrow>
          elevation (smoothElevationForClimbDetection pts ! k) < peakElevation seg - 10)"
proof -
  let ?sp = "smoothElevationForClimbDetection pts"
  from detect_peak [OF assms] obtain i k where i: "1 \<le> i" "i < length pts"
    and ends: "endDistance seg = distance (?sp ! i)" "endElevation seg = elevation (?sp ! i)"
    and k: "i < k" "k \<le> min (i + 20) (length pts)"
    and ps: "peakState ?sp i k (peakDistance seg, peakElevation seg)"
    and stop: "k < min (i + 20) (length pts) \<longrightarrow> elevation (?sp ! k) < peakElevation seg - 10"
    by blast
  from ps have mx: "peakElevation seg = runningMax ?sp i k"
    and loc: "\<exists>m. i \<le> m \<and> m < k \<and> peakDistance seg = distance (?sp ! m) \<and>
          elevation (?sp ! m) = peakElevation seg \<and>
          (\<forall>l. i \<le> l \<and> l < m \<longrightarrow> elevation (?sp ! l) < peakElevation seg)"
    and drop: "\<forall>l. i \<le> l \<and> l < k \<longrightarrow> runningMax ?sp i (Suc l) - 10 \<le> elevation (?sp ! l)"
    unfolding peakState_def fst_conv snd_conv by blast+
  from k have k20: "k \<le> i + 20" and klen: "k \<le> length pts"
    by simp_all
  from stop have stop': "k < i + 20 \<and> k < length pts \<longrightarrow> elevation (?sp ! k) < peakElevation seg - 10"
    by simp
  show ?thesis
    using i ends k(1) k20 klen mx loc drop stop' by blast
qed

theorem peak_refinement_witness:
  "exClimb1 \<in> set (detectClimbs exTrack) \<and>
   (\<exists>i k. 1 \<le> i \<and> i < length exTrack \<and>
     endDistance exClimb1 = distance (smoothElevationForClimbDetection exTrack ! i) \<and>
     endElevation exClimb1 = elevation (smoothElevationForClimbDetection exTrack ! i) \<and>
     i < k \<and> k \<le> i + 20 \<and> k \<le> length exTrack \<and>
     peakElevation exClimb1 = runningMax (smoothElevationForClimbDetection exTrack) i k \<and>
     (\<exists>m. i \<le> m \<and> m < k \<and>
          peakDistance exClimb1 = distance (smoothElevationForClimbDetection exTrack ! m) \<and>
          elevation (smoothElevationForClimbDetection exTrack ! m) = peakElevation exClimb1 \<and>
          (\<forall>l. i \<le> l \<and> l < m \<longrightarrow>
               elevation (smoothElevationForClimbDetection exTrack ! l) < peakElevation exClimb1)) \<and>
     (\<forall>l. i \<le> l \<and> l < k \<longrightarrow>
          runningMax (smoothElevationForClimbDetection exTrack) i (Suc l) - 10
            \<le> elevation (smoothElevationForClimbDetection exTrack ! l)) \<and>
     (k < i + 20 \<and> k < length exTrack \<longrightarrow>
          elevation (smoothElevationForClimbDetection exTrack ! k) < peakElevation exClimb1 - 10))"
proof -
  have mem: "exClimb1 \<in> set (detectClimbs exTrack)"
    by (simp add: exTrack_detect)
  from mem peak_refinement [OF mem] show ?thesis
    by (rule conjI)
qed

text \<open>
  C7. The smoother returns a sequence of the same length in which every point keeps its
  distance. A point with three samples on each side (index \<open>i\<close> with \<open>3 \<le> i\<close> and
  \<open>i + 3 < length\<close>) gets the arithmetic mean of the seven input elevations centred on it; the
  first three and the last three points are passed through unchanged; an input of fewer
  than 5 samples is returned unchanged.
\<close>

theorem smoother_contract:
  "length (smoothElevationForClimbDetection points) = length points
   \<and> (i < length points \<longrightarrow>
        distance (smoothElevationForClimbDetection points ! i) = distance (points ! i))
   \<and> (3 \<le> i \<and> i + 3 < length points \<longrightarrow>
        elevation (smoothElevationForClimbDetection points ! i) =
          (\<Sum>j = i - 3 .. i + 3. elevation (points ! j)) / 7)
   \<and> (i < length points \<and> (i < 3 \<or> length points \<le> i + 3) \<longrightarrow>
        smoothElevationForClimbDetection points ! i = points ! i)
   \<and> (length points < 5 \<longrightarrow> smoothElevationForClimbDetection points = points)"
proof (intro conjI impI)
  show "length (smoothElevationForClimbDetection points) = length points" by simp
  show "distance (smoothElevationForClimbDetection points ! i) = distance (points ! i)"
    if "i < length points" using that by (rule distance_smooth)
  show "elevation (smoothElevationForClimbDetection points ! i) =
          (\<Sum>j = i - 3 .. i + 3. elevation (points ! j)) / 7"
    if "3 \<le> i \<and> i + 3 < length points" using that by (simp add: nth_smooth)
  show "smoothElevationForClimbDetection points ! i = points ! i"
    if "i < length points \<and> (i < 3 \<or> length points \<le> i + 3)" using that by (auto simp: nth_smooth)
  show "smoothElevationForClimbDetection points = points" if "length points < 5"
    using that by (simp add: smoothElevationForClimbDetection_def)
qed

theorem smoother_contract_witness:
  "length (smoothElevationForClimbDetection exEight) = length exEight
   \<and> distance (smoothElevationForClimbDetection exEight ! 3) = distance (exEight ! 3)
   \<and> elevation (smoothElevationForClimbDetection exEight ! 3) = 40
   \<and> elevation (exEight ! 3) = 100
   \<and> smoothElevationForClimbDetection exEight ! 2 = exEight ! 2
   \<and> smoothElevationForClimbDetection exEight ! 5 = exEight ! 5
   \<and> length exFour < 5 \<and> smoothElevationForClimbDetection exFour = exFour"
proof -
  have len: "length exEight = 8" "length exFour = 4"
    by code_simp+
  have mean: "(\<Sum>j = 3 - 3 .. 3 + 3. elevation (exEight ! j)) / 7 = 40"
    by code_simp
  have raw: "elevation (exEight ! 3) = 100"
    by code_simp
  show ?thesis
    using len mean raw smoother_contract [of exEight 3] smoother_contract [of exEight 2]
      smoother_contract [of exEight 5] smoother_contract [of exFour 0]
    by simp
qed

text \<open>
  C8. An input of fewer than 10 samples gives the empty list: the function returns at once,
  before it reads any sample.
\<close>

theorem short_input_empty:
  "length elevationPoints < 10 \<Longrightarrow> detectClimbs elevationPoints = []"
  by (simp add: detectClimbs_def)

theorem short_input_empty_witness:
  "length exShort < 10 \<and> detectClimbs exShort = []"
proof -
  have len: "length exShort < 10"
    by (simp add: exShort_def samples_def)
  with short_input_empty [OF len] show ?thesis by simp
qed



text \<open>
  C10. In every returned segment the peak elevation is at least the end elevation, and the
  peak lies at the sample of the nominal end or at a later sample; so, on a track with
  non-decreasing distances, the peak distance is at least the end distance.
\<close>

theorem peak_not_before_end:
  assumes "seg \<in> set (detectClimbs pts)"
  shows "peakElevation seg \<ge> endElevation seg \<and>
     (\<exists>i m. i \<le> m \<and> m < length pts \<and>
        endDistance seg = distance (smoothElevationForClimbDetection pts ! i) \<and>
        peakDistance seg = distance (smoothElevationForClimbDetection pts ! m)) \<and>
     (sorted (map distance pts) \<longrightarrow> peakDistance seg \<ge> endDistance seg)"
proof -
  let ?sp = "smoothElevationForClimbDetection pts"
  from detect_peak [OF assms] obtain i k where i: "i < length pts"
    and ends: "endDistance seg = distance (?sp ! i)" "endElevation seg = elevation (?sp ! i)"
    and k: "i < k" "k \<le> min (i + 20) (length pts)"
    and ps: "peakState ?sp i k (peakDistance seg, peakElevation seg)"
    by blast
  from ps have mx: "peakElevation seg = runningMax ?sp i k"
    by (simp add: peakState_def)
  from ps obtain m where m: "i \<le> m" "m < k" "peakDistance seg = distance (?sp ! m)"
    by (auto simp: peakState_def)
  have "elevation (?sp ! i) \<le> runningMax ?sp i k"
    using k by (intro runningMax_ge) simp_all
  then have elev: "peakElevation seg \<ge> endElevation seg"
    using mx ends by simp
  have mlen: "m < length pts" using m k by simp
  then have loc: "\<exists>i m. i \<le> m \<and> m < length pts \<and>
        endDistance seg = distance (?sp ! i) \<and> peakDistance seg = distance (?sp ! m)"
    using m ends by blast
  have "peakDistance seg \<ge> endDistance seg" if "sorted (map distance pts)"
  proof -
    from that have "sorted (map distance ?sp)" by (simp add: map_distance_smooth)
    then have "distance (?sp ! i) \<le> distance (?sp ! m)"
      using m(1) mlen by (intro distance_mono) simp_all
    with m ends show ?thesis by simp
  qed
  with elev loc show ?thesis by blast
qed

theorem peak_not_before_end_witness:
  "exClimb1 \<in> set (detectClimbs exTrack) \<and> sorted (map distance exTrack) \<and>
   peakElevation exClimb1 \<ge> endElevation exClimb1 \<and>
   peakDistance exClimb1 \<ge> endDistance exClimb1 \<and>
   peakElevation exClimb1 = 800 \<and> endElevation exClimb1 = 2700 / 7 \<and>
   peakDistance exClimb1 = 17 \<and> endDistance exClimb1 = 9"
proof -
  have mem: "exClimb1 \<in> set (detectClimbs exTrack)"
    by (simp add: exTrack_detect)
  have vals: "peakElevation exClimb1 = 800 \<and> endElevation exClimb1 = 2700 / 7 \<and>
     peakDistance exClimb1 = 17 \<and> endDistance exClimb1 = 9"
    by (simp add: exClimb1_def)
  from mem exTrack_sorted vals peak_not_before_end [OF mem] show ?thesis
    by blast
qed

end
